theory Spec2Isabelle
  imports Main
begin

section \<open>Regular expressions as the patterns of golden\_files.go use them\<close>

text \<open>
  The program matches three constant patterns with Go's \<open>regexp\<close> package, whose
  semantics is leftmost-first: the match starts at the smallest possible offset, and among
  the matches starting there the one a backtracking matcher tries first wins (the left
  branch of an alternation before the right one, a longer repetition before a shorter one).
  Strings are byte lists. All three patterns are ASCII, and a match can only start at an
  ASCII byte, so scanning byte by byte agrees with the library's scanning rune by rune.
\<close>

datatype re =
    Cls "char list"
  | Str string
  | Cat re re
  | Alt re re
  | Opt re
  | Plus re
  | Rep nat re

text \<open>
  \<open>ends r s\<close> lists, in the matcher's order of preference, what is left of \<open>s\<close> after
  each way of matching \<open>r\<close> at the start of \<open>s\<close>.
\<close>

fun weight :: "re \<Rightarrow> nat" where
  "weight (Cls cs) = 1"
| "weight (Str w) = 1"
| "weight (Cat a b) = Suc (weight a + weight b)"
| "weight (Alt a b) = Suc (weight a + weight b)"
| "weight (Opt a) = Suc (weight a)"
| "weight (Plus a) = Suc (weight a)"
| "weight (Rep n a) = Suc (n + weight a)"

function (sequential) ends :: "re \<Rightarrow> string \<Rightarrow> string list" where
  "ends (Cls cs) s = (case s of [] \<Rightarrow> [] | c # t \<Rightarrow> if c \<in> set cs then [t] else [])"
| "ends (Str w) s = (if take (length w) s = w then [drop (length w) s] else [])"
| "ends (Cat a b) s = concat (map (ends b) (ends a s))"
| "ends (Alt a b) s = ends a s @ ends b s"
| "ends (Opt a) s = ends a s @ [s]"
| "ends (Plus a) s =
     concat (map (\<lambda>t. (if length t < length s then ends (Plus a) t else []) @ [t]) (ends a s))"
| "ends (Rep 0 a) s = [s]"
| "ends (Rep (Suc n) a) s = concat (map (ends (Rep n a)) (ends a s))"
  by pat_completeness auto
termination
  by (relation "measures [\<lambda>(r, s). weight r, \<lambda>(r, s). length s]") auto

declare ends.simps(6) [simp del]

text \<open>The length of the leftmost-first match at the start of \<open>s\<close>, if there is one.\<close>

definition matchLen :: "re \<Rightarrow> string \<Rightarrow> nat option" where
  "matchLen r s = (case ends r s of [] \<Rightarrow> None | t # _ \<Rightarrow> Some (length s - length t))"

fun seqs :: "re list \<Rightarrow> re" where
  "seqs [] = Str []"
| "seqs [r] = r"
| "seqs (r # rs) = Cat r (seqs rs)"

fun alts :: "re list \<Rightarrow> re" where
  "alts [] = Cls []"
| "alts [r] = r"
| "alts (r # rs) = Alt r (alts rs)"

text \<open>
  \<open>Regexp.FindAllString(s, -1)\<close>, with the offset of every match
  (\<open>FindAllStringIndex\<close>), and \<open>Regexp.ReplaceAllString\<close> for a replacement without
  \<open>$\<close>: successive non-overlapping matches, left to right. None of the three patterns
  matches the empty string (lemmas \<open>uuidRe_no_empty\<close>, \<open>rfc3339_no_empty\<close>,
  \<open>rfc7232_no_empty\<close>), so the library's rule for empty matches never applies and
  a position without a non-empty match is skipped.
\<close>

fun findAllStringIndex :: "re \<Rightarrow> nat \<Rightarrow> string \<Rightarrow> (nat \<times> string) list" where
  "findAllStringIndex r pos [] = []"
| "findAllStringIndex r pos (c # t) =
     (case matchLen r (c # t) of
        Some (Suc n) \<Rightarrow> (pos, c # take n t) # findAllStringIndex r (pos + Suc n) (drop n t)
      | _ \<Rightarrow> findAllStringIndex r (Suc pos) t)"

fun findAllString :: "re \<Rightarrow> string \<Rightarrow> string list" where
  "findAllString r [] = []"
| "findAllString r (c # t) =
     (case matchLen r (c # t) of
        Some (Suc n) \<Rightarrow> (c # take n t) # findAllString r (drop n t)
      | _ \<Rightarrow> findAllString r t)"

fun replaceAllString :: "re \<Rightarrow> string \<Rightarrow> string \<Rightarrow> string" where
  "replaceAllString r [] repl = []"
| "replaceAllString r (c # t) repl =
     (case matchLen r (c # t) of
        Some (Suc n) \<Rightarrow> repl @ replaceAllString r (drop n t) repl
      | _ \<Rightarrow> c # replaceAllString r t repl)"

text \<open>
  \<open>strings.Replace(s, old, new, -1)\<close>: every non-overlapping occurrence of \<open>old\<close>,
  left to right. For an empty \<open>old\<close> the library inserts \<open>new\<close> before every rune and at
  the end (here: every byte; the program only passes the 36 bytes of a UUID).
\<close>

fun replaceNonEmpty :: "string \<Rightarrow> string \<Rightarrow> string \<Rightarrow> string" where
  "replaceNonEmpty [] old new = []"
| "replaceNonEmpty (c # t) old new =
     (if take (length old) (c # t) = old
      then new @ replaceNonEmpty (drop (length old - 1) t) old new
      else c # replaceNonEmpty t old new)"

definition strings_Replace :: "string \<Rightarrow> string \<Rightarrow> string \<Rightarrow> string" where
  "strings_Replace s old new =
     (if old = [] then new @ concat (map (\<lambda>c. c # new) s) else replaceNonEmpty s old new)"

section \<open>The three patterns\<close>

definition digit :: "char list" where
  "digit = ''0123456789''"

definition hexdigit :: "char list" where
  "hexdigit = ''0123456789abcdefABCDEF''"

definition upper :: "char list" where
  "upper = ''ABCDEFGHIJKLMNOPQRSTUVWXYZ''"

text \<open>
  \<^verbatim>\<open>[0-9a-fA-F]{8}-[0-9a-fA-F]{4}-[1-5][0-9a-fA-F]{3}-[89abAB][0-9a-fA-F]{3}-[0-9a-fA-F]{12}\<close>
\<close>

definition uuidRe :: re where
  "uuidRe = seqs [Rep 8 (Cls hexdigit), Str ''-'', Rep 4 (Cls hexdigit), Str ''-'',
     Cls ''12345'', Rep 3 (Cls hexdigit), Str ''-'',
     Cls ''89abAB'', Rep 3 (Cls hexdigit), Str ''-'', Rep 12 (Cls hexdigit)]"

text \<open>
  The RFC3339 pattern of \<open>replaceTimes\<close>. The class \<^verbatim>\<open>[\+|\-]\<close> of the source holds
  three characters: plus, vertical bar and minus.
\<close>

definition hourRe :: re where
  "hourRe = Alt (Cat (Cls ''01'') (Cls digit)) (Cat (Str ''2'') (Cls ''0123''))"

definition minuteRe :: re where
  "minuteRe = Cat (Cls ''012345'') (Cls digit)"

definition secondRe :: re where
  "secondRe = Alt (Cat (Cls ''012345'') (Cls digit)) (Str ''60'')"

definition yearRe :: re where
  "yearRe = Plus (Cls digit)"

definition monthRe :: re where
  "monthRe = Alt (Cat (Str ''0'') (Cls ''123456789'')) (Cat (Str ''1'') (Cls ''012''))"

definition dayRe :: re where
  "dayRe = alts [Cat (Str ''0'') (Cls ''123456789''), Cat (Cls ''12'') (Cls digit),
     Cat (Str ''3'') (Cls ''01'')]"

definition subSecondRe :: re where
  "subSecondRe = Opt (Cat (Str ''.'') (Plus (Cls digit)))"

definition timeZoneOffsetRe :: re where
  "timeZoneOffsetRe = Alt (Cls ''Zz'')
     (seqs [Cls ''+|-'', Alt (Cat (Cls ''01'') (Cls digit)) (Cat (Str ''2'') (Cls ''0123'')),
        Str '':'', Cls ''012345'', Cls digit])"

definition rfc3339Pattern :: re where
  "rfc3339Pattern = seqs [yearRe, Str ''-'', monthRe, Str ''-'', dayRe, Cls ''Tt'',
     hourRe, Str '':'', minuteRe, Str '':'', secondRe, subSecondRe, timeZoneOffsetRe]"

definition dayNameRe :: re where
  "dayNameRe = alts [Str ''Mon'', Str ''Tue'', Str ''Wed'', Str ''Thu'', Str ''Fri'',
     Str ''Sat'', Str ''Sun'']"

definition monthNameRe :: re where
  "monthNameRe = alts [Str ''Jan'', Str ''Feb'', Str ''Mar'', Str ''Apr'', Str ''May'',
     Str ''Jun'', Str ''Jul'', Str ''Aug'', Str ''Sep'', Str ''Oct'', Str ''Nov'', Str ''Dec'']"

definition tzRe :: re where
  "tzRe = alts [Str ''GMT'', Str ''CEST'', Str ''UTC'', Str ''IST'', Plus (Cls upper)]"

definition lastModifiedPattern :: re where
  "lastModifiedPattern = seqs [dayNameRe, Str '', '', Rep 2 (Cls digit), Str '' '',
     monthNameRe, Str '' '', Rep 4 (Cls digit), Str '' '',
     hourRe, Str '':'', minuteRe, Str '':'', secondRe, Str '' '', tzRe]"

definition rfc3339Default :: string where
  "rfc3339Default = ''0001-01-01T00:00:00Z''"

definition rfc7232Default :: string where
  "rfc7232Default = ''Mon, 01 Jan 0001 00:00:00 GMT''"

section \<open>UUID values (github.com/satori/go.uuid)\<close>

text \<open>
  A \<open>uuid.UUID\<close> is an array of 16 bytes; a byte is a natural number below 256 (two hex
  digits never overflow it). \<open>uuid.FromString\<close> decodes the canonical 36-character
  form with \<open>hex.Decode\<close>, in either letter case; \<open>UUID.String\<close> renders the canonical
  form with \<open>hex.Encode\<close>, which writes lower-case letters. The library's other textual
  forms (32, 38, 41 and 45 characters) are left out: every string the program parses is a
  match of \<open>uuidRe\<close>, which has 36 characters.
\<close>

type_synonym uuid = "nat list"

datatype uuidError = IncorrectLength string | IncorrectFormat string | InvalidByte

definition fromHexChar :: "char \<Rightarrow> nat option" where
  "fromHexChar c =
     (let n = (of_char c :: nat) in
      if 48 \<le> n \<and> n \<le> 57 then Some (n - 48)
      else if 97 \<le> n \<and> n \<le> 102 then Some (n - 97 + 10)
      else if 65 \<le> n \<and> n \<le> 70 then Some (n - 65 + 10)
      else None)"

fun hexDecode :: "string \<Rightarrow> nat list option" where
  "hexDecode [] = Some []"
| "hexDecode [a] = None"
| "hexDecode (a # b # t) =
     (case fromHexChar a of None \<Rightarrow> None
      | Some x \<Rightarrow> (case fromHexChar b of None \<Rightarrow> None
        | Some y \<Rightarrow> (case hexDecode t of None \<Rightarrow> None
          | Some bs \<Rightarrow> Some ((x * 16 + y) # bs))))"

definition hextable :: string where
  "hextable = ''0123456789abcdef''"

definition hexEncode :: "nat list \<Rightarrow> string" where
  "hexEncode bs = concat (map (\<lambda>v. [hextable ! (v div 16), hextable ! (v mod 16)]) bs)"

definition decodeCanonical :: "string \<Rightarrow> uuidError + uuid" where
  "decodeCanonical t =
     (if t ! 8 \<noteq> CHR ''-'' \<or> t ! 13 \<noteq> CHR ''-'' \<or> t ! 18 \<noteq> CHR ''-'' \<or> t ! 23 \<noteq> CHR ''-''
      then Inl (IncorrectFormat t)
      else case hexDecode (take 8 t @ take 4 (drop 9 t) @ take 4 (drop 14 t)
                            @ take 4 (drop 19 t) @ take 12 (drop 24 t)) of
             None \<Rightarrow> Inl InvalidByte
           | Some u \<Rightarrow> Inr u)"

definition uuid_FromString :: "string \<Rightarrow> uuidError + uuid" where
  "uuid_FromString input =
     (if length input = 36 then decodeCanonical input else Inl (IncorrectLength input))"

definition uuid_String :: "uuid \<Rightarrow> string" where
  "uuid_String u = hexEncode (take 4 u) @ ''-'' @ hexEncode (take 2 (drop 4 u)) @ ''-''
     @ hexEncode (take 2 (drop 6 u)) @ ''-'' @ hexEncode (take 2 (drop 8 u)) @ ''-''
     @ hexEncode (drop 10 u)"

section \<open>findUUIDs, replaceUUIDs, replaceTimes\<close>

datatype errno = ENOENT | ENOTDIR | EISDIR

type_synonym path = "string list"

datatype pathError = PathError string path errno

text \<open>
  One constructor for every \<open>fmt.Errorf\<close> of the source; a wrapped error (\<open>%w\<close>) is an
  argument. The two \<open>regexp.Compile\<close> calls are on constant patterns that compile, so
  their error branches have no constructor.
\<close>

datatype error =
    ParseUUIDError string uuidError
  | FindUUIDsError string error
  | AbsPathError
  | MarshalError
  | UnknownTypeError
  | MkdirError pathError
  | ReplaceUUIDsError error
  | ReplaceTimesError error
  | UpdateError path pathError
  | ReadError path pathError
  | MismatchError path string string

text \<open>
  The loop of \<open>findUUIDs\<close> over the matches: \<open>uniqIDs\<close> is the map used as a set,
  \<open>res\<close> the slice appended to.
\<close>

fun findUUIDs_loop :: "string list \<Rightarrow> uuid set \<Rightarrow> uuid list \<Rightarrow> error + uuid list" where
  "findUUIDs_loop [] uniqIDs res = Inr res"
| "findUUIDs_loop (uuidStr # rest) uniqIDs res =
     (case uuid_FromString uuidStr of
        Inl e \<Rightarrow> Inl (ParseUUIDError uuidStr e)
      | Inr ID \<Rightarrow>
          if ID \<in> uniqIDs then findUUIDs_loop rest uniqIDs res
          else findUUIDs_loop rest (insert ID uniqIDs) (res @ [ID]))"

definition findUUIDs :: "string \<Rightarrow> error + uuid list" where
  "findUUIDs str = findUUIDs_loop (findAllString uuidRe str) {} []"

text \<open>\<open>fmt.Sprintf("%d", n)\<close> and \<open>fmt.Sprintf("%012d", n)\<close> for a non-negative \<open>n\<close>.\<close>

fun decimal :: "nat \<Rightarrow> string" where
  "decimal n = (if n < 10 then [digit ! n] else decimal (n div 10) @ [digit ! (n mod 10)])"

declare decimal.simps [simp del]

definition sprintf_012d :: "nat \<Rightarrow> string" where
  "sprintf_012d n = replicate (12 - length (decimal n)) CHR ''0'' @ decimal n"

definition replacement :: "nat \<Rightarrow> string" where
  "replacement n = ''00000000-0000-0000-0000-'' @ sprintf_012d n"

fun replaceUUIDs_loop :: "nat \<Rightarrow> uuid list \<Rightarrow> string \<Rightarrow> string" where
  "replaceUUIDs_loop idx [] newStr = newStr"
| "replaceUUIDs_loop idx (u # ids) newStr =
     replaceUUIDs_loop (idx + 1) ids
       (strings_Replace newStr (uuid_String u) (replacement (idx + 1)))"

definition replaceUUIDs :: "string \<Rightarrow> error + string" where
  "replaceUUIDs str =
     (case findUUIDs str of
        Inl e \<Rightarrow> Inl (FindUUIDsError str e)
      | Inr ids \<Rightarrow> Inr (replaceUUIDs_loop 0 ids str))"

definition replaceTimes :: "string \<Rightarrow> error + string" where
  "replaceTimes str =
     (let res = replaceAllString rfc3339Pattern str rfc3339Default
      in Inr (replaceAllString lastModifiedPattern res rfc7232Default))"

section \<open>The file system and testableCompareWithGolden\<close>

text \<open>
  What the comparison sees of the file system: the working directory (\<open>None\<close> when it
  cannot be determined, the one way \<open>filepath.Abs\<close> fails), the regular files with their
  contents and the directories. A path is the list of its components below the root, the
  root \<open>[]\<close> is always a directory, and permissions are not modelled.
\<close>

record fs =
  cwd :: "path option"
  files :: "path \<rightharpoonup> string"
  dirs :: "path set"

datatype filename = Absolute path | Relative path

definition filepath_Abs :: "fs \<Rightarrow> filename \<Rightarrow> unit + path" where
  "filepath_Abs st f =
     (case f of
        Absolute p \<Rightarrow> Inr p
      | Relative p \<Rightarrow> (case cwd st of None \<Rightarrow> Inl () | Some wd \<Rightarrow> Inr (wd @ p)))"

definition filepath_Dir :: "path \<Rightarrow> path" where
  "filepath_Dir p = butlast p"

function MkdirAll :: "fs \<Rightarrow> path \<Rightarrow> pathError + fs" where
  "MkdirAll st p =
     (if p = [] \<or> p \<in> dirs st then Inr st
      else if files st p \<noteq> None then Inl (PathError ''mkdir'' p ENOTDIR)
      else case MkdirAll st (butlast p) of
             Inl e \<Rightarrow> Inl e
           | Inr st' \<Rightarrow> Inr (st'\<lparr>dirs := insert p (dirs st')\<rparr>))"
  by pat_completeness auto
termination
  by (relation "measure (\<lambda>(st, p). length p)") auto

declare MkdirAll.simps [simp del]

definition WriteFile :: "fs \<Rightarrow> path \<Rightarrow> string \<Rightarrow> pathError + fs" where
  "WriteFile st p data =
     (if p = [] \<or> p \<in> dirs st then Inl (PathError ''open'' p EISDIR)
      else if butlast p \<noteq> [] \<and> butlast p \<notin> dirs st
      then Inl (PathError ''open'' p (if files st (butlast p) \<noteq> None then ENOTDIR else ENOENT))
      else Inr (st\<lparr>files := (files st)(p \<mapsto> data)\<rparr>))"

definition ReadFile :: "fs \<Rightarrow> path \<Rightarrow> pathError + string" where
  "ReadFile st p =
     (case files st p of
        Some data \<Rightarrow> Inr data
      | None \<Rightarrow> if p = [] \<or> p \<in> dirs st then Inl (PathError ''read'' p EISDIR)
                else Inl (PathError ''open'' p ENOENT))"

record CompareOptions =
  UUIDAgnostic :: bool
  DateTimeAgnostic :: bool
  MarshalInputAsJSON :: bool

text \<open>
  The \<open>interface{}\<close> argument: what the type switch sees, and what
  \<open>json.MarshalIndent(actualObj, "", "  ")\<close> returns for it (\<open>None\<close> for an error).
\<close>

datatype dynamic = Bytes string | String string | Stringer string | Other

record actualObj =
  dyn :: dynamic
  marshalIndent :: "string option"

definition toBytes :: "CompareOptions \<Rightarrow> actualObj \<Rightarrow> error + string" where
  "toBytes opts obj =
     (if MarshalInputAsJSON opts
      then (case marshalIndent obj of None \<Rightarrow> Inl MarshalError | Some bs \<Rightarrow> Inr bs)
      else (case dyn obj of
              Bytes t \<Rightarrow> Inr t
            | String t \<Rightarrow> Inr t
            | Stringer t \<Rightarrow> Inr t
            | Other \<Rightarrow> Inl UnknownTypeError))"

text \<open>The block \<open>if update { ... }\<close>.\<close>

definition updateGolden :: "path \<Rightarrow> string \<Rightarrow> CompareOptions \<Rightarrow> fs \<Rightarrow> error option \<times> fs" where
  "updateGolden absPath actual opts st =
     (case MkdirAll st (filepath_Dir absPath) of
        Inl e \<Rightarrow> (Some (MkdirError e), st)
      | Inr st1 \<Rightarrow>
         (case (if UUIDAgnostic opts then replaceUUIDs actual else Inr actual) of
            Inl e \<Rightarrow> (Some (ReplaceUUIDsError e), st1)
          | Inr tmp1 \<Rightarrow>
             (case (if DateTimeAgnostic opts then replaceTimes tmp1 else Inr tmp1) of
                Inl e \<Rightarrow> (Some (ReplaceTimesError e), st1)
              | Inr tmp2 \<Rightarrow>
                 (case WriteFile st1 absPath tmp2 of
                    Inl e \<Rightarrow> (Some (UpdateError absPath e), st1)
                  | Inr st2 \<Rightarrow> (None, st2)))))"

text \<open>The two normalisations of the comparison, each of the golden text and of the actual one.\<close>

definition bothUUIDs :: "CompareOptions \<Rightarrow> string \<times> string \<Rightarrow> error + string \<times> string" where
  "bothUUIDs opts ea =
     (if UUIDAgnostic opts
      then (case replaceUUIDs (fst ea) of
              Inl e \<Rightarrow> Inl (ReplaceUUIDsError e)
            | Inr expectedStr \<Rightarrow>
               (case replaceUUIDs (snd ea) of
                  Inl e \<Rightarrow> Inl (ReplaceUUIDsError e)
                | Inr actualStr \<Rightarrow> Inr (expectedStr, actualStr)))
      else Inr ea)"

definition bothTimes :: "CompareOptions \<Rightarrow> string \<times> string \<Rightarrow> error + string \<times> string" where
  "bothTimes opts ea =
     (if DateTimeAgnostic opts
      then (case replaceTimes (fst ea) of
              Inl e \<Rightarrow> Inl (ReplaceTimesError e)
            | Inr expectedStr \<Rightarrow>
               (case replaceTimes (snd ea) of
                  Inl e \<Rightarrow> Inl (ReplaceTimesError e)
                | Inr actualStr \<Rightarrow> Inr (expectedStr, actualStr)))
      else Inr ea)"

definition compareStrings :: "path \<Rightarrow> CompareOptions \<Rightarrow> string \<Rightarrow> string \<Rightarrow> error option" where
  "compareStrings absPath opts expected actual =
     (case bothUUIDs opts (expected, actual) of
        Inl e \<Rightarrow> Some e
      | Inr ea1 \<Rightarrow>
         (case bothTimes opts ea1 of
            Inl e \<Rightarrow> Some e
          | Inr (expectedStr, actualStr) \<Rightarrow>
              if expectedStr \<noteq> actualStr
              then Some (MismatchError absPath expectedStr actualStr)
              else None))"

definition testableCompareWithGolden ::
    "bool \<Rightarrow> filename \<Rightarrow> actualObj \<Rightarrow> CompareOptions \<Rightarrow> fs \<Rightarrow> error option \<times> fs" where
  "testableCompareWithGolden update goldenFile obj opts st =
     (case filepath_Abs st goldenFile of
        Inl _ \<Rightarrow> (Some AbsPathError, st)
      | Inr absPath \<Rightarrow>
         (case toBytes opts obj of
            Inl e \<Rightarrow> (Some e, st)
          | Inr actual \<Rightarrow>
             (case (if update then updateGolden absPath actual opts st else (None, st)) of
                (Some e, st') \<Rightarrow> (Some e, st')
              | (None, st') \<Rightarrow>
                 (case ReadFile st' absPath of
                    Inl e \<Rightarrow> (Some (ReadError absPath e), st')
                  | Inr expected \<Rightarrow> (compareStrings absPath opts expected actual, st')))))"

text \<open>
  The text of the mismatch error,
  \<^verbatim>\<open>fmt.Errorf("mismatch of actual output and golden-file %q:\n %s \n", absPath, dmp.DiffPrettyText(diffs))\<close>.
  The quoting of \<open>%q\<close> and the diff of \<open>diffmatchpatch\<close> (\<open>DiffMain\<close>, then
  \<open>DiffPrettyText\<close>) are library code and are parameters here.
\<close>

definition mismatchText ::
    "(path \<Rightarrow> string) \<Rightarrow> (string \<Rightarrow> string \<Rightarrow> string) \<Rightarrow> path \<Rightarrow> string \<Rightarrow> string \<Rightarrow> string" where
  "mismatchText quote prettyDiff absPath expectedStr actualStr =
     ''mismatch of actual output and golden-file '' @ quote absPath @ '':'' @ [CHR 0x0A]
       @ '' '' @ prettyDiff expectedStr actualStr @ '' '' @ [CHR 0x0A]"

fun errorText ::
    "(path \<Rightarrow> string) \<Rightarrow> (string \<Rightarrow> string \<Rightarrow> string) \<Rightarrow> error \<Rightarrow> string option" where
  "errorText quote prettyDiff (MismatchError absPath e a) =
     Some (mismatchText quote prettyDiff absPath e a)"
| "errorText quote prettyDiff _ = None"

section \<open>Notions used to state the properties\<close>

text \<open>
  The normalisation of one text under the options, as the update block applies it to the
  actual text and as the comparison applies it to each of its two texts: UUIDs first, then
  times, each only when its option is set.
\<close>

definition normalize :: "CompareOptions \<Rightarrow> string \<Rightarrow> error + string" where
  "normalize opts s =
     (case (if UUIDAgnostic opts then replaceUUIDs s else Inr s) of
        Inl e \<Rightarrow> Inl (ReplaceUUIDsError e)
      | Inr s1 \<Rightarrow>
         (case (if DateTimeAgnostic opts then replaceTimes s1 else Inr s1) of
            Inl e \<Rightarrow> Inl (ReplaceTimesError e)
          | Inr s2 \<Rightarrow> Inr s2))"

text \<open>
  The shape the UUID pattern describes, position by position: 8-4-4-4-12 hex digits with
  hyphens between the groups, the first digit of the third group in 1..5 and the first of
  the fourth in 8, 9, a, b, A, B. It looks at the first 36 characters of \<open>s\<close>.
\<close>

definition uuidShape :: "string \<Rightarrow> bool" where
  "uuidShape s \<longleftrightarrow> 36 \<le> length s
     \<and> set (take 8 s) \<subseteq> set hexdigit \<and> s ! 8 = CHR ''-''
     \<and> set (take 4 (drop 9 s)) \<subseteq> set hexdigit \<and> s ! 13 = CHR ''-''
     \<and> s ! 14 \<in> set ''12345'' \<and> set (take 3 (drop 15 s)) \<subseteq> set hexdigit \<and> s ! 18 = CHR ''-''
     \<and> s ! 19 \<in> set ''89abAB'' \<and> set (take 3 (drop 20 s)) \<subseteq> set hexdigit \<and> s ! 23 = CHR ''-''
     \<and> set (take 12 (drop 24 s)) \<subseteq> set hexdigit"

text \<open>Lower case for the letters of a hex digit; every other character is left alone.\<close>

definition lowerHex :: "char \<Rightarrow> char" where
  "lowerHex c =
     (if c = CHR ''A'' then CHR ''a'' else if c = CHR ''B'' then CHR ''b''
      else if c = CHR ''C'' then CHR ''c'' else if c = CHR ''D'' then CHR ''d''
      else if c = CHR ''E'' then CHR ''e'' else if c = CHR ''F'' then CHR ''f'' else c)"

text \<open>
  The offset of the first match, in a list of matches with their offsets, whose text parses
  to the UUID \<open>u\<close>.
\<close>

definition firstOffset :: "(nat \<times> string) list \<Rightarrow> uuid \<Rightarrow> nat option" where
  "firstOffset xs u =
     (case filter (\<lambda>p. uuid_FromString (snd p) = Inr u) xs of
        [] \<Rightarrow> None
      | p # _ \<Rightarrow> Some (fst p))"


text \<open>The least number of characters a match of a pattern has.\<close>

fun minlen :: "re \<Rightarrow> nat" where
  "minlen (Cls cs) = 1"
| "minlen (Str w) = length w"
| "minlen (Cat a b) = minlen a + minlen b"
| "minlen (Alt a b) = min (minlen a) (minlen b)"
| "minlen (Opt a) = 0"
| "minlen (Plus a) = minlen a"
| "minlen (Rep n a) = n * minlen a"

text \<open>
  What it means to replace every match by one constant, in the words of the specification:
  \<open>scanOf r s xs\<close> says that \<open>xs\<close> lists, with their offsets, spans of \<open>s\<close> that
  do not overlap, in increasing order, each of them the leftmost-first match of \<open>r\<close> at
  its offset, and that no character outside these spans starts a match;
  \<open>substitute pos xs s repl\<close> is the text \<open>s\<close> (which starts at offset \<open>pos\<close>) with
  each span of \<open>xs\<close> replaced by \<open>repl\<close>, whatever the span holds.
\<close>

definition scanOf :: "re \<Rightarrow> string \<Rightarrow> (nat \<times> string) list \<Rightarrow> bool" where
  "scanOf r s xs \<longleftrightarrow>
     sorted_wrt (\<lambda>a b. fst a + length (snd a) \<le> fst b) xs
     \<and> (\<forall>p \<in> set xs. snd p \<noteq> [] \<and> fst p + length (snd p) \<le> length s
           \<and> snd p = take (length (snd p)) (drop (fst p) s)
           \<and> matchLen r (drop (fst p) s) = Some (length (snd p)))
     \<and> (\<forall>k < length s. (\<forall>p \<in> set xs. \<not> (fst p \<le> k \<and> k < fst p + length (snd p)))
           \<longrightarrow> matchLen r (drop k s) = None)"

fun substitute :: "nat \<Rightarrow> (nat \<times> string) list \<Rightarrow> string \<Rightarrow> string \<Rightarrow> string" where
  "substitute pos [] s repl = s"
| "substitute pos ((off, m) # rest) s repl =
     take (off - pos) s @ repl
       @ substitute (off + length m) rest (drop (off - pos + length m) s) repl"











section \<open>The matcher on the UUID pattern\<close>

lemma concat_map_if: "concat (map f (if P then [y] else [])) = (if P then f y else [])"
  by simp

lemma if_if_Nil: "(if P then (if Q then x else []) else []) = (if P \<and> Q then x else [])"
  by simp

lemma ends_Rep_Cls:
  "ends (Rep n (Cls cs)) s = (if n \<le> length s \<and> set (take n s) \<subseteq> set cs then [drop n s] else [])"
proof (induction n arbitrary: s)
  case 0
  show ?case by simp
next
  case (Suc n)
  show ?case
  proof (cases s)
    case Nil
    then show ?thesis by simp
  next
    case (Cons c t)
    then show ?thesis by (cases "c \<in> set cs") (simp_all add: Suc.IH)
  qed
qed

lemma ends_Rep_Cls_drop:
  "0 < n \<Longrightarrow> ends (Rep n (Cls cs)) (drop k s) =
     (if k + n \<le> length s \<and> set (take n (drop k s)) \<subseteq> set cs then [drop (k + n) s] else [])"
  by (auto simp: ends_Rep_Cls add.commute)

lemmas ends_Rep_hex =
  ends_Rep_Cls_drop[of 8, simplified] ends_Rep_Cls_drop[of 4, simplified]
  ends_Rep_Cls_drop[of 3, simplified] ends_Rep_Cls_drop[of 12, simplified]

lemma ends_Cls_drop:
  "ends (Cls cs) (drop k s) = (if k < length s \<and> s ! k \<in> set cs then [drop (Suc k) s] else [])"
proof (cases "k < length s")
  case True
  then have "drop k s = s ! k # drop (Suc k) s" by (simp add: Cons_nth_drop_Suc)
  then show ?thesis using True by simp
next
  case False
  then show ?thesis by simp
qed

lemma ends_Str1_drop:
  "ends (Str [c]) (drop k s) = (if k < length s \<and> s ! k = c then [drop (Suc k) s] else [])"
proof (cases "k < length s")
  case True
  then have "drop k s = s ! k # drop (Suc k) s" by (simp add: Cons_nth_drop_Suc)
  then show ?thesis using True by auto
next
  case False
  then show ?thesis by simp
qed

lemma ends_uuidRe: "ends uuidRe s = (if uuidShape s then [drop 36 s] else [])"
proof -
  have "ends uuidRe s = ends uuidRe (drop 0 s)" by simp
  also have "\<dots> = (if uuidShape s then [drop 36 s] else [])"
    unfolding uuidRe_def seqs.simps ends.simps(3) ends_Rep_hex ends_Cls_drop ends_Str1_drop
      concat_map_if if_if_Nil
    apply (rule if_cong)
      apply (rule iffI)
       apply (simp add: uuidShape_def)
      apply (simp add: uuidShape_def)
    apply simp_all
    done
  finally show ?thesis .
qed

section \<open>The comparison and the file system\<close>
















section \<open>Scanning a text for matches\<close>

lemma matchLen_le: "matchLen r s = Some k \<Longrightarrow> k \<le> length s"
  by (auto simp: matchLen_def split: list.splits)

lemma findAllString_Index: "findAllString r s = map snd (findAllStringIndex r pos s)"
proof (induction r pos s rule: findAllStringIndex.induct)
  case (1 r pos)
  show ?case by simp
next
  case (2 r pos c t)
  show ?case
  proof (cases "matchLen r (c # t)")
    case None
    with 2 show ?thesis by simp
  next
    case (Some k)
    with 2 show ?thesis by (cases k) simp_all
  qed
qed

lemma findAllStringIndex_sound:
  "(off, m) \<in> set (findAllStringIndex r pos s) \<Longrightarrow>
     \<exists>k. off = pos + k \<and> k + length m \<le> length s \<and> m = take (length m) (drop k s)
        \<and> matchLen r (drop k s) = Some (length m) \<and> m \<noteq> []"
proof (induction r pos s rule: findAllStringIndex.induct)
  case (1 r pos)
  then show ?case by simp
next
  case (2 r pos c t)
  have skip: "\<exists>k. off = pos + k \<and> k + length m \<le> length (c # t) \<and> m = take (length m) (drop k (c # t))
        \<and> matchLen r (drop k (c # t)) = Some (length m) \<and> m \<noteq> []"
    if "\<exists>k. off = Suc pos + k \<and> k + length m \<le> length t \<and> m = take (length m) (drop k t)
        \<and> matchLen r (drop k t) = Some (length m) \<and> m \<noteq> []"
  proof -
    from that obtain k where k: "off = Suc pos + k" "k + length m \<le> length t"
      "m = take (length m) (drop k t)" "matchLen r (drop k t) = Some (length m)" "m \<noteq> []"
      by blast
    show ?thesis
      by (rule exI[of _ "Suc k"]) (use k in simp)
  qed
  show ?case
  proof (cases "matchLen r (c # t)")
    case None
    with 2 show ?thesis using skip by simp
  next
    case (Some j)
    show ?thesis
    proof (cases j)
      case 0
      with 2 Some show ?thesis using skip by simp
    next
      case (Suc n)
      from Some Suc have n: "n \<le> length t" using matchLen_le[of r "c # t" "Suc n"] by simp
      from "2.prems" Some Suc
      consider "off = pos" "m = c # take n t"
        | "(off, m) \<in> set (findAllStringIndex r (pos + Suc n) (drop n t))"
        by auto
      then show ?thesis
      proof cases
        case 1
        show ?thesis
          by (rule exI[of _ 0]) (use 1 n Some Suc in simp)
      next
        case 2
        from "2.IH" Some Suc 2 obtain k where k: "off = pos + Suc n + k"
          "k + length m \<le> length (drop n t)" "m = take (length m) (drop k (drop n t))"
          "matchLen r (drop k (drop n t)) = Some (length m)" "m \<noteq> []"
          by blast
        show ?thesis
          by (rule exI[of _ "Suc (n + k)"]) (use k n in \<open>simp add: add.commute\<close>)
      qed
    qed
  qed
qed

lemma findAllStringIndex_ge:
  "(off, m) \<in> set (findAllStringIndex r pos s) \<Longrightarrow> pos \<le> off"
  using findAllStringIndex_sound[of off m r pos s] by auto

lemma findAllStringIndex_apart:
  "sorted_wrt (\<lambda>a b. fst a + length (snd a) \<le> fst b) (findAllStringIndex r pos s)"
proof (induction r pos s rule: findAllStringIndex.induct)
  case (1 r pos)
  show ?case by simp
next
  case (2 r pos c t)
  show ?case
  proof (cases "matchLen r (c # t)")
    case None
    with 2 show ?thesis by simp
  next
    case (Some j)
    show ?thesis
    proof (cases j)
      case 0
      with 2 Some show ?thesis by simp
    next
      case (Suc n)
      from Some Suc have n: "n \<le> length t" using matchLen_le[of r "c # t" "Suc n"] by simp
      have "\<forall>x \<in> set (findAllStringIndex r (pos + Suc n) (drop n t)). pos + Suc n \<le> fst x"
        using findAllStringIndex_ge by fastforce
      moreover have "sorted_wrt (\<lambda>a b. fst a + length (snd a) \<le> fst b)
          (findAllStringIndex r (pos + Suc n) (drop n t))"
        using "2.IH" Some Suc by blast
      ultimately show ?thesis using Some Suc n by simp
    qed
  qed
qed

section \<open>Parsing and printing a UUID\<close>

lemma fromHexChar_hex:
  "c \<in> set hexdigit \<Longrightarrow> \<exists>v. fromHexChar c = Some v \<and> v < 16 \<and> hextable ! v = lowerHex c"
  unfolding hexdigit_def
  apply simp
  apply (elim disjE)
  apply (simp_all add: fromHexChar_def hextable_def lowerHex_def)
  done



lemma hexEncode_Cons: "hexEncode (v # bs) = hextable ! (v div 16) # hextable ! (v mod 16) # hexEncode bs"
  by (simp add: hexEncode_def)

lemma hexEncode_Nil: "hexEncode [] = []"
  by (simp add: hexEncode_def)

lemma hex_roundtrip:
  "set x \<subseteq> set hexdigit \<Longrightarrow> even (length x) \<Longrightarrow>
     \<exists>bs. hexDecode x = Some bs \<and> hexEncode bs = map lowerHex x \<and> 2 * length bs = length x"
proof (induction x rule: hexDecode.induct)
  case 1
  show ?case by (simp add: hexEncode_Nil)
next
  case (2 a)
  then show ?case by simp
next
  case (3 a b t)
  from "3.prems" obtain x where x: "fromHexChar a = Some x" "x < 16" "hextable ! x = lowerHex a"
    using fromHexChar_hex[of a] by auto
  from "3.prems" obtain y where y: "fromHexChar b = Some y" "y < 16" "hextable ! y = lowerHex b"
    using fromHexChar_hex[of b] by auto
  from "3.prems" have "set t \<subseteq> set hexdigit" "even (length t)" by simp_all
  from "3.IH"[OF x(1) y(1) this] obtain bs where bs: "hexDecode t = Some bs"
    "hexEncode bs = map lowerHex t" "2 * length bs = length t" by blast
  from x y have "(x * 16 + y) div 16 = x" "(x * 16 + y) mod 16 = y" by simp_all
  with bs x y show ?case by (simp add: hexEncode_Cons)
qed

lemma hexEncode_take: "hexEncode (take n bs) = take (2 * n) (hexEncode bs)"
proof (induction bs arbitrary: n)
  case Nil
  show ?case by (simp add: hexEncode_Nil)
next
  case (Cons v bs)
  show ?case by (cases n) (simp_all add: hexEncode_Nil hexEncode_Cons Cons.IH)
qed

lemma hexEncode_drop: "hexEncode (drop n bs) = drop (2 * n) (hexEncode bs)"
proof (induction bs arbitrary: n)
  case Nil
  show ?case by (simp add: hexEncode_Nil)
next
  case (Cons v bs)
  show ?case by (cases n) (simp_all add: hexEncode_Nil hexEncode_Cons Cons.IH)
qed

lemma lowerHex_hyphen: "lowerHex CHR ''-'' = CHR ''-''"
  by (simp add: lowerHex_def)

lemma canonical_roundtrip:
  assumes m: "m = g1 @ ''-'' @ g2 @ ''-'' @ g3 @ ''-'' @ g4 @ ''-'' @ g5"
    and len: "length g1 = 8" "length g2 = 4" "length g3 = 4" "length g4 = 4" "length g5 = 12"
    and hex: "set g1 \<subseteq> set hexdigit" "set g2 \<subseteq> set hexdigit" "set g3 \<subseteq> set hexdigit"
      "set g4 \<subseteq> set hexdigit" "set g5 \<subseteq> set hexdigit"
  shows "\<exists>u. uuid_FromString m = Inr u \<and> uuid_String u = map lowerHex m \<and> length u = 16"
proof -
  let ?H = "g1 @ g2 @ g3 @ g4 @ g5"
  have "set ?H \<subseteq> set hexdigit" "even (length ?H)" using len hex by simp_all
  then obtain u where u: "hexDecode ?H = Some u" "hexEncode u = map lowerHex ?H"
    "2 * length u = length ?H"
    using hex_roundtrip[of ?H] by blast
  have l36: "length m = 36" using m len by simp
  have parts: "take 8 m = g1" "take 4 (drop 9 m) = g2" "take 4 (drop 14 m) = g3"
    "take 4 (drop 19 m) = g4" "take 12 (drop 24 m) = g5"
    using m len by simp_all
  have hy: "m ! 8 = CHR ''-''" "m ! 13 = CHR ''-''" "m ! 18 = CHR ''-''" "m ! 23 = CHR ''-''"
    using m len by (simp_all add: nth_append)
  have dec: "uuid_FromString m = Inr u"
    using l36 parts hy u(1) len(5) by (simp add: uuid_FromString_def decodeCanonical_def)
  have lu: "length u = 16" using u(3) len by simp
  have "uuid_String u = take 8 (hexEncode u) @ ''-'' @ take 4 (drop 8 (hexEncode u)) @ ''-''
     @ take 4 (drop 12 (hexEncode u)) @ ''-'' @ take 4 (drop 16 (hexEncode u)) @ ''-''
     @ drop 20 (hexEncode u)"
    by (simp add: uuid_String_def hexEncode_take hexEncode_drop)
  also have "\<dots> = map lowerHex m"
    using len by (simp add: u(2) m lowerHex_hyphen)
  finally show ?thesis using dec lu by blast
qed

lemma drop_split_at:
  "j \<le> k \<Longrightarrow> k < length m \<Longrightarrow> drop j m = take (k - j) (drop j m) @ m ! k # drop (Suc k) m"
proof -
  assume a: "j \<le> k" "k < length m"
  have "drop j m = take (k - j) (drop j m) @ drop (k - j) (drop j m)"
    by (simp only: append_take_drop_id)
  also have "drop (k - j) (drop j m) = drop k m" using a by simp
  also have "drop k m = m ! k # drop (Suc k) m" using a by (simp add: Cons_nth_drop_Suc)
  finally show ?thesis .
qed

lemma uuidShape_split:
  assumes "uuidShape m" and "length m = 36"
  shows "m = take 8 m @ ''-'' @ take 4 (drop 9 m) @ ''-'' @ take 4 (drop 14 m) @ ''-''
           @ take 4 (drop 19 m) @ ''-'' @ take 12 (drop 24 m)"
proof -
  have h: "m ! 8 = CHR ''-''" "m ! 13 = CHR ''-''" "m ! 18 = CHR ''-''" "m ! 23 = CHR ''-''"
    using assms by (simp_all add: uuidShape_def)
  have "m = drop 0 m" by simp
  also have "\<dots> = take 8 m @ CHR ''-'' # drop 9 m"
    using drop_split_at[of 0 8 m] assms(2) h by simp
  also have "drop 9 m = take 4 (drop 9 m) @ CHR ''-'' # drop 14 m"
    using drop_split_at[of 9 13 m] assms(2) h by simp
  also have "drop 14 m = take 4 (drop 14 m) @ CHR ''-'' # drop 19 m"
    using drop_split_at[of 14 18 m] assms(2) h by simp
  also have "drop 19 m = take 4 (drop 19 m) @ CHR ''-'' # drop 24 m"
    using drop_split_at[of 19 23 m] assms(2) h by simp
  also have "drop 24 m = take 12 (drop 24 m)" using assms(2) by simp
  finally show ?thesis by simp
qed

lemma uuidShape_third: "uuidShape m \<Longrightarrow> set (take 4 (drop 14 m)) \<subseteq> set hexdigit"
proof -
  assume a: "uuidShape m"
  then have l: "14 < length m" by (simp add: uuidShape_def)
  have d: "drop 14 m = m ! 14 # drop 15 m" using l Cons_nth_drop_Suc[of 14 m] by simp
  have "take 4 (drop 14 m) = m ! 14 # take 3 (drop 15 m)" by (simp add: d)
  moreover have "m ! 14 \<in> set hexdigit" using a by (auto simp: uuidShape_def hexdigit_def)
  ultimately show ?thesis using a by (simp add: uuidShape_def)
qed

lemma uuidShape_fourth: "uuidShape m \<Longrightarrow> set (take 4 (drop 19 m)) \<subseteq> set hexdigit"
proof -
  assume a: "uuidShape m"
  then have l: "19 < length m" by (simp add: uuidShape_def)
  have d: "drop 19 m = m ! 19 # drop 20 m" using l Cons_nth_drop_Suc[of 19 m] by simp
  have "take 4 (drop 19 m) = m ! 19 # take 3 (drop 20 m)" by (simp add: d)
  moreover have "m ! 19 \<in> set hexdigit" using a by (auto simp: uuidShape_def hexdigit_def)
  ultimately show ?thesis using a by (simp add: uuidShape_def)
qed

lemma uuidShape_roundtrip:
  assumes "uuidShape m" and "length m = 36"
  shows "\<exists>u. uuid_FromString m = Inr u \<and> uuid_String u = map lowerHex m \<and> length u = 16"
proof (rule canonical_roundtrip[OF uuidShape_split[OF assms]])
  show "length (take 8 m) = 8" "length (take 4 (drop 9 m)) = 4" "length (take 4 (drop 14 m)) = 4"
    "length (take 4 (drop 19 m)) = 4" "length (take 12 (drop 24 m)) = 12"
    using assms(2) by simp_all
  show "set (take 8 m) \<subseteq> set hexdigit" "set (take 4 (drop 9 m)) \<subseteq> set hexdigit"
    "set (take 12 (drop 24 m)) \<subseteq> set hexdigit"
    using assms(1) by (simp_all add: uuidShape_def)
  show "set (take 4 (drop 14 m)) \<subseteq> set hexdigit" using assms(1) by (rule uuidShape_third)
  show "set (take 4 (drop 19 m)) \<subseteq> set hexdigit" using assms(1) by (rule uuidShape_fourth)
qed

lemma matchLen_uuidRe: "matchLen uuidRe s = (if uuidShape s then Some 36 else None)"
  by (simp add: matchLen_def ends_uuidRe uuidShape_def)

lemma uuidShape_take: "uuidShape s \<Longrightarrow> uuidShape (take 36 s)"
  by (simp add: uuidShape_def drop_take)

lemma uuid_match:
  assumes "(off, m) \<in> set (findAllStringIndex uuidRe pos s)"
  shows "length m = 36 \<and> uuidShape m \<and> pos \<le> off \<and> m = take 36 (drop (off - pos) s)"
proof -
  from findAllStringIndex_sound[OF assms] obtain k where k: "off = pos + k"
    "m = take (length m) (drop k s)" "matchLen uuidRe (drop k s) = Some (length m)" by blast
  from k(3) have "uuidShape (drop k s)" "length m = 36"
    by (simp_all add: matchLen_uuidRe split: if_splits)
  with k show ?thesis using uuidShape_take[of "drop k s"] by simp
qed

section \<open>The loop of findUUIDs\<close>

lemma firstOffset_append_found:
  assumes "p \<in> set prev" and "uuid_FromString (snd p) = Inr u"
  shows "firstOffset (prev @ ys) u = firstOffset prev u"
    and "\<exists>q \<in> set prev. firstOffset prev u = Some (fst q)"
proof -
  let ?P = "\<lambda>p. uuid_FromString (snd p) = Inr u"
  from assms have "p \<in> set (filter ?P prev)" by simp
  then obtain q qs where q: "filter ?P prev = q # qs" by (cases "filter ?P prev") auto
  then show "firstOffset (prev @ ys) u = firstOffset prev u" by (simp add: firstOffset_def)
  from q have "q \<in> set (filter ?P prev)" by simp
  then have "q \<in> set prev" by simp
  then show "\<exists>q \<in> set prev. firstOffset prev u = Some (fst q)"
    using q by (auto simp: firstOffset_def)
qed

lemma firstOffset_append_new:
  assumes "\<forall>q \<in> set prev. uuid_FromString (snd q) \<noteq> Inr u" and "uuid_FromString (snd p) = Inr u"
  shows "firstOffset (prev @ p # ys) u = Some (fst p)"
proof -
  from assms(1) have "filter (\<lambda>p. uuid_FromString (snd p) = Inr u) prev = []"
    by (simp add: filter_empty_conv)
  then show ?thesis using assms(2) by (simp add: firstOffset_def)
qed

lemma findUUIDs_loop_inv:
  assumes "\<forall>p \<in> set rest. \<exists>u. uuid_FromString (snd p) = Inr u"
    and "sorted_wrt (<) (map fst (prev @ rest))"
    and "distinct res"
    and "set res = {u. \<exists>p \<in> set prev. uuid_FromString (snd p) = Inr u}"
    and "sorted_wrt (<) (map (\<lambda>u. the (firstOffset prev u)) res)"
  shows "\<exists>ids. findUUIDs_loop (map snd rest) (set res) res = Inr ids \<and> distinct ids
     \<and> set ids = {u. \<exists>p \<in> set (prev @ rest). uuid_FromString (snd p) = Inr u}
     \<and> sorted_wrt (<) (map (\<lambda>u. the (firstOffset (prev @ rest) u)) ids)"
  using assms
proof (induction rest arbitrary: prev res)
  case Nil
  then show ?case by simp
next
  case (Cons p rest)
  from Cons.prems(1) obtain u where u: "uuid_FromString (snd p) = Inr u" by auto
  let ?prev = "prev @ [p]"
  have rest: "\<forall>q \<in> set rest. \<exists>u. uuid_FromString (snd q) = Inr u" using Cons.prems(1) by simp
  have srt: "sorted_wrt (<) (map fst (?prev @ rest))" using Cons.prems(2) by simp
  have before: "\<forall>q \<in> set prev. fst q < fst p"
    using Cons.prems(2) by (auto simp: sorted_wrt_append)
  have keep: "firstOffset ?prev v = firstOffset prev v" if "v \<in> set res" for v
  proof -
    from that Cons.prems(4) obtain q where "q \<in> set prev" "uuid_FromString (snd q) = Inr v" by auto
    then show ?thesis by (rule firstOffset_append_found(1))
  qed
  have srt_res: "sorted_wrt (<) (map (\<lambda>u. the (firstOffset ?prev u)) res)"
  proof -
    have eq: "map (\<lambda>u. the (firstOffset ?prev u)) res = map (\<lambda>u. the (firstOffset prev u)) res"
      using keep by simp
    show ?thesis unfolding eq by (rule Cons.prems(5))
  qed
  show ?case
  proof (cases "u \<in> set res")
    case True
    have set': "set res = {u. \<exists>q \<in> set ?prev. uuid_FromString (snd q) = Inr u}"
      using True u Cons.prems(4) by auto
    from Cons.IH[OF rest srt Cons.prems(3) set' srt_res] True u show ?thesis by simp
  next
    case False
    let ?res = "res @ [u]"
    have d: "distinct ?res" using False Cons.prems(3) by simp
    have set': "set ?res = {u. \<exists>q \<in> set ?prev. uuid_FromString (snd q) = Inr u}"
      using u Cons.prems(4) by auto
    have new: "firstOffset ?prev u = Some (fst p)"
      using firstOffset_append_new[of prev u p "[]"] False Cons.prems(4) u by auto
    have lower: "the (firstOffset ?prev v) < fst p" if "v \<in> set res" for v
    proof -
      from that Cons.prems(4) obtain q where q: "q \<in> set prev" "uuid_FromString (snd q) = Inr v"
        by auto
      from firstOffset_append_found(2)[OF q] obtain q' where "q' \<in> set prev"
        "firstOffset prev v = Some (fst q')" by blast
      then show ?thesis using keep[OF that] before by simp
    qed
    have srt': "sorted_wrt (<) (map (\<lambda>u. the (firstOffset ?prev u)) ?res)"
      using srt_res new lower by (simp add: sorted_wrt_append)
    from Cons.IH[OF rest srt d set' srt'] False u show ?thesis by simp
  qed
qed

lemma offsets_increasing: "sorted_wrt (<) (map fst (findAllStringIndex r pos s))"
proof -
  have "sorted_wrt (\<lambda>a b. fst a < fst b) (findAllStringIndex r pos s)"
  proof (rule sorted_wrt_mono_rel[OF _ findAllStringIndex_apart])
    fix a b
    assume "a \<in> set (findAllStringIndex r pos s)" "fst a + length (snd a) \<le> fst b"
    moreover from this(1) have "snd a \<noteq> []"
      using findAllStringIndex_sound[of "fst a" "snd a" r pos s] by auto
    ultimately show "fst a < fst b" by (cases "snd a") simp_all
  qed
  then show ?thesis by (simp add: sorted_wrt_map)
qed

lemma uuid_match_parses:
  assumes "p \<in> set (findAllStringIndex uuidRe pos s)"
  shows "\<exists>u. uuid_FromString (snd p) = Inr u \<and> uuid_String u = map lowerHex (snd p)"
proof -
  from assms have "(fst p, snd p) \<in> set (findAllStringIndex uuidRe pos s)" by simp
  from uuid_match[OF this] uuidShape_roundtrip[of "snd p"] show ?thesis by blast
qed

lemma findUUIDs_result:
  "\<exists>ids. findUUIDs s = Inr ids \<and> distinct ids
     \<and> set ids = {u. \<exists>p \<in> set (findAllStringIndex uuidRe 0 s). uuid_FromString (snd p) = Inr u}
     \<and> sorted_wrt (<) (map (\<lambda>u. the (firstOffset (findAllStringIndex uuidRe 0 s) u)) ids)"
proof -
  let ?xs = "findAllStringIndex uuidRe 0 s"
  have a: "\<forall>p \<in> set ?xs. \<exists>u. uuid_FromString (snd p) = Inr u" using uuid_match_parses by blast
  have b: "sorted_wrt (<) (map fst ([] @ ?xs))" using offsets_increasing[of uuidRe 0 s] by simp
  from findUUIDs_loop_inv[of ?xs "[]" "[]", OF a b]
  show ?thesis by (simp add: findUUIDs_def findAllString_Index[of uuidRe s 0])
qed

section \<open>The placeholder of a UUID\<close>









section \<open>UUID normalisation\<close>





text \<open>
  Claim C3, at the failing input: an upper-case UUID is matched by the finder, but the loop
  of \<open>replaceUUIDs\<close> searches for \<open>id.String()\<close>, the lower-case rendering, so the
  occurrence the finder matched stays in the text.
\<close>

theorem replaceUUIDs_upper_case_unreplaced:
  "findAllString uuidRe ''D7A282F6-1C10-459E-BB44-55A1A6D48BDD''
     = [''D7A282F6-1C10-459E-BB44-55A1A6D48BDD'']
   \<and> replaceUUIDs ''D7A282F6-1C10-459E-BB44-55A1A6D48BDD''
     = Inr ''D7A282F6-1C10-459E-BB44-55A1A6D48BDD''"
  by code_simp










lemma lowerHex_hex: "c \<in> set hexdigit \<Longrightarrow> lowerHex c \<in> set hexdigit"
  unfolding hexdigit_def
  apply simp
  apply (elim disjE)
  apply (simp_all add: lowerHex_def)
  done

lemma lowerHex_version: "c \<in> set ''12345'' \<Longrightarrow> lowerHex c \<in> set ''12345''"
  by (auto simp: lowerHex_def)

lemma lowerHex_variant: "c \<in> set ''89abAB'' \<Longrightarrow> lowerHex c \<in> set ''89abAB''"
  by (auto simp: lowerHex_def)

lemma lowerHex_set: "set xs \<subseteq> set hexdigit \<Longrightarrow> set (map lowerHex xs) \<subseteq> set hexdigit"
  using lowerHex_hex by auto

lemma uuidShape_lowerHex:
  assumes "uuidShape m"
  shows "uuidShape (map lowerHex m)"
proof -
  from assms have l: "36 \<le> length m" by (simp add: uuidShape_def)
  have n: "map lowerHex m ! k = lowerHex (m ! k)" if "k < 36" for k using that l by simp
  have g: "set (take a (drop b (map lowerHex m))) \<subseteq> set hexdigit"
    if "set (take a (drop b m)) \<subseteq> set hexdigit" for a b
    using lowerHex_set[OF that] by (simp add: take_map drop_map)
  have g0: "set (take 8 (map lowerHex m)) \<subseteq> set hexdigit"
    using g[of 8 0] assms by (simp add: uuidShape_def)
  show ?thesis
    unfolding uuidShape_def
    using assms l g0 g[of 4 9] g[of 3 15] g[of 3 20] g[of 12 24]
      lowerHex_version[of "m ! 14"] lowerHex_variant[of "m ! 19"]
    by (simp add: uuidShape_def n lowerHex_hyphen)
qed

lemma findAllString_uuid_short: "length s < 36 \<Longrightarrow> findAllString uuidRe s = []"
proof (induction s)
  case Nil
  show ?case by simp
next
  case (Cons c t)
  then have "matchLen uuidRe (c # t) = None" by (simp add: matchLen_uuidRe uuidShape_def)
  with Cons show ?case by simp
qed

lemma findAllString_uuid_no_match:
  assumes "length g = 36" and "\<not> uuidShape g"
  shows "findAllString uuidRe g = []"
proof (cases g)
  case Nil
  then show ?thesis by simp
next
  case (Cons c t)
  with assms have "matchLen uuidRe (c # t) = None" "length t < 36"
    by (simp_all add: matchLen_uuidRe)
  with Cons show ?thesis by (simp add: findAllString_uuid_short)
qed

text \<open>
  Claim C8. Every match of the UUID finder is the 36 characters at its offset, with its
  version digit (index 14) in 1..5 and its variant digit (index 19) in 8, 9, a, b, A, B;
  every string that normalisation searches for and replaces has that shape as well; and a
  36-character string whose version or variant digit is outside these sets is not matched,
  and normalisation returns it as it is.
\<close>

theorem uuid_version_variant:
  "(\<forall>p \<in> set (findAllStringIndex uuidRe 0 s).
       snd p = take 36 (drop (fst p) s) \<and> length (snd p) = 36 \<and> uuidShape (snd p)
       \<and> snd p ! 14 \<in> set ''12345'' \<and> snd p ! 19 \<in> set ''89abAB'')
   \<and> (\<forall>ids. findUUIDs s = Inr ids \<longrightarrow> (\<forall>u \<in> set ids. uuidShape (uuid_String u)))
   \<and> (length g = 36 \<and> (g ! 14 \<notin> set ''12345'' \<or> g ! 19 \<notin> set ''89abAB'')
        \<longrightarrow> findAllString uuidRe g = [] \<and> replaceUUIDs g = Inr g)"
proof (intro conjI ballI allI impI)
  fix p
  assume "p \<in> set (findAllStringIndex uuidRe 0 s)"
  then have "(fst p, snd p) \<in> set (findAllStringIndex uuidRe 0 s)" by simp
  from uuid_match[OF this]
  have m: "length (snd p) = 36" "uuidShape (snd p)" "snd p = take 36 (drop (fst p) s)" by auto
  show "snd p = take 36 (drop (fst p) s)" by (rule m(3))
  show "length (snd p) = 36" by (rule m(1))
  show "uuidShape (snd p)" by (rule m(2))
  show "snd p ! 14 \<in> set ''12345''" using m(2) by (simp add: uuidShape_def)
  show "snd p ! 19 \<in> set ''89abAB''" using m(2) by (simp add: uuidShape_def)
next
  fix ids u
  assume "findUUIDs s = Inr ids" "u \<in> set ids"
  with findUUIDs_result[of s] obtain p where p: "p \<in> set (findAllStringIndex uuidRe 0 s)"
    "uuid_FromString (snd p) = Inr u" by auto
  from uuid_match_parses[OF p(1)] p(2) have "uuid_String u = map lowerHex (snd p)" by auto
  moreover from p(1) have "(fst p, snd p) \<in> set (findAllStringIndex uuidRe 0 s)" by simp
  from uuid_match[OF this] have "uuidShape (snd p)" by blast
  ultimately show "uuidShape (uuid_String u)" using uuidShape_lowerHex by simp
next
  assume a: "length g = 36 \<and> (g ! 14 \<notin> set ''12345'' \<or> g ! 19 \<notin> set ''89abAB'')"
  then have "\<not> uuidShape g" by (auto simp: uuidShape_def)
  with a have e: "findAllString uuidRe g = []" by (simp add: findAllString_uuid_no_match)
  show "findAllString uuidRe g = []" by (rule e)
  show "replaceUUIDs g = Inr g" by (simp add: replaceUUIDs_def findUUIDs_def e)
qed

theorem uuid_version_variant_witness:
  "findAllString uuidRe ''d7a282f6-1c10-659e-bb44-55a1a6d48bdd'' = []
   \<and> replaceUUIDs ''d7a282f6-1c10-659e-bb44-55a1a6d48bdd'' = Inr ''d7a282f6-1c10-659e-bb44-55a1a6d48bdd''
   \<and> ''d7a282f6-1c10-459e-bb44-55a1a6d48bdd'' ! 14 \<in> set ''12345''
   \<and> ''d7a282f6-1c10-459e-bb44-55a1a6d48bdd'' ! 19 \<in> set ''89abAB''"
proof -
  have x: "findAllStringIndex uuidRe 0 ''id d7a282f6-1c10-459e-bb44-55a1a6d48bdd''
             = [(3, ''d7a282f6-1c10-459e-bb44-55a1a6d48bdd'')]"
    by code_simp
  have g: "length ''d7a282f6-1c10-659e-bb44-55a1a6d48bdd'' = 36
     \<and> (''d7a282f6-1c10-659e-bb44-55a1a6d48bdd'' ! 14 \<notin> set ''12345''
         \<or> ''d7a282f6-1c10-659e-bb44-55a1a6d48bdd'' ! 19 \<notin> set ''89abAB'')"
    by simp
  note t = uuid_version_variant[of "''id d7a282f6-1c10-459e-bb44-55a1a6d48bdd''"
      "''d7a282f6-1c10-659e-bb44-55a1a6d48bdd''"]
  from t g have a: "findAllString uuidRe ''d7a282f6-1c10-659e-bb44-55a1a6d48bdd'' = []
      \<and> replaceUUIDs ''d7a282f6-1c10-659e-bb44-55a1a6d48bdd'' = Inr ''d7a282f6-1c10-659e-bb44-55a1a6d48bdd''"
    by blast
  from t have "\<forall>p \<in> set (findAllStringIndex uuidRe 0 ''id d7a282f6-1c10-459e-bb44-55a1a6d48bdd'').
       snd p ! 14 \<in> set ''12345'' \<and> snd p ! 19 \<in> set ''89abAB''"
    by blast
  then have "''d7a282f6-1c10-459e-bb44-55a1a6d48bdd'' ! 14 \<in> set ''12345''
     \<and> ''d7a282f6-1c10-459e-bb44-55a1a6d48bdd'' ! 19 \<in> set ''89abAB''"
    unfolding x by simp
  with a show ?thesis by blast
qed

section \<open>The comparison of the two normalised texts\<close>

lemma replaceUUIDs_total: "\<exists>t. replaceUUIDs s = Inr t"
  using findUUIDs_result[of s] by (auto simp: replaceUUIDs_def)

lemma replaceTimes_total: "\<exists>t. replaceTimes s = Inr t"
  by (simp add: replaceTimes_def Let_def)

lemma normalize_total: "\<exists>t. normalize opts s = Inr t"
proof -
  obtain s1 where s1: "(if UUIDAgnostic opts then replaceUUIDs s else Inr s) = Inr s1"
    using replaceUUIDs_total[of s] by (cases "UUIDAgnostic opts") auto
  obtain s2 where s2: "(if DateTimeAgnostic opts then replaceTimes s1 else Inr s1) = Inr s2"
    using replaceTimes_total[of s1] by (cases "DateTimeAgnostic opts") auto
  show ?thesis unfolding normalize_def s1 using s2 by simp
qed

lemma compareStrings_normalize:
  assumes "normalize opts expected = Inr e" and "normalize opts actual = Inr a"
  shows "compareStrings absPath opts expected actual
           = (if e = a then None else Some (MismatchError absPath e a))"
proof -
  obtain e1 where e1: "(if UUIDAgnostic opts then replaceUUIDs expected else Inr expected) = Inr e1"
    using replaceUUIDs_total[of expected] by (cases "UUIDAgnostic opts") auto
  obtain a1 where a1: "(if UUIDAgnostic opts then replaceUUIDs actual else Inr actual) = Inr a1"
    using replaceUUIDs_total[of actual] by (cases "UUIDAgnostic opts") auto
  have e2: "(if DateTimeAgnostic opts then replaceTimes e1 else Inr e1) = Inr e"
    using assms(1) unfolding normalize_def e1 by (auto split: sum.splits if_splits)
  have a2: "(if DateTimeAgnostic opts then replaceTimes a1 else Inr a1) = Inr a"
    using assms(2) unfolding normalize_def a1 by (auto split: sum.splits if_splits)
  have u: "bothUUIDs opts (expected, actual) = Inr (e1, a1)"
    using e1 a1 by (cases "UUIDAgnostic opts") (simp_all add: bothUUIDs_def)
  have t: "bothTimes opts (e1, a1) = Inr (e, a)"
    using e2 a2 by (cases "DateTimeAgnostic opts") (simp_all add: bothTimes_def)
  show ?thesis by (simp add: compareStrings_def u t)
qed

text \<open>
  Claim C7. Once the comparison has the golden text and the actual text (the path is
  resolved, the actual object is turned into text, the update block, if it ran, returned no
  error, and the golden file is read), both normalisations succeed and the result is no
  error exactly when the two normalised texts are equal; otherwise it is the mismatch
  error of the path and the two normalised texts, whose message is
  \<open>mismatch of actual output and golden-file\<close>, the quoted path, a colon and a line
  break, and the rendered diff of the two normalised texts between spaces.
\<close>

theorem compare_fails_iff_texts_differ:
  assumes "filepath_Abs st goldenFile = Inr absPath" and "toBytes opts obj = Inr actual"
    and "(if update then updateGolden absPath actual opts st else (None, st)) = (None, st')"
    and "ReadFile st' absPath = Inr expected"
  shows "\<exists>e a. normalize opts expected = Inr e \<and> normalize opts actual = Inr a
     \<and> testableCompareWithGolden update goldenFile obj opts st
          = (if e = a then None else Some (MismatchError absPath e a), st')
     \<and> errorText quote prettyDiff (MismatchError absPath e a)
          = Some (''mismatch of actual output and golden-file '' @ quote absPath @ '':''
                  @ [CHR 0x0A] @ '' '' @ prettyDiff e a @ '' '' @ [CHR 0x0A])"
proof -
  from normalize_total obtain e where e: "normalize opts expected = Inr e" by blast
  from normalize_total obtain a where a: "normalize opts actual = Inr a" by blast
  have "testableCompareWithGolden update goldenFile obj opts st
          = (compareStrings absPath opts expected actual, st')"
    using assms by (simp add: testableCompareWithGolden_def)
  with compareStrings_normalize[OF e a]
  have "testableCompareWithGolden update goldenFile obj opts st
          = (if e = a then None else Some (MismatchError absPath e a), st')"
    by simp
  with e a show ?thesis by (auto simp: mismatchText_def)
qed

theorem compare_fails_iff_texts_differ_witness:
  "\<exists>e a. normalize \<lparr>UUIDAgnostic = False, DateTimeAgnostic = False, MarshalInputAsJSON = False\<rparr>
             ''Jane'' = Inr e
     \<and> normalize \<lparr>UUIDAgnostic = False, DateTimeAgnostic = False, MarshalInputAsJSON = False\<rparr>
             ''John'' = Inr a
     \<and> testableCompareWithGolden False (Absolute [''work'', ''x.golden''])
          \<lparr>dyn = String ''John'', marshalIndent = None\<rparr>
          \<lparr>UUIDAgnostic = False, DateTimeAgnostic = False, MarshalInputAsJSON = False\<rparr>
          \<lparr>cwd = None, files = [[''work'', ''x.golden''] \<mapsto> ''Jane''], dirs = {[''work'']}\<rparr>
        = (if e = a then None else Some (MismatchError [''work'', ''x.golden''] e a),
           \<lparr>cwd = None, files = [[''work'', ''x.golden''] \<mapsto> ''Jane''], dirs = {[''work'']}\<rparr>)
     \<and> errorText (\<lambda>p. concat p) (\<lambda>x y. x @ y) (MismatchError [''work'', ''x.golden''] e a)
          = Some (''mismatch of actual output and golden-file '' @ concat [''work'', ''x.golden'']
                  @ '':'' @ [CHR 0x0A] @ '' '' @ (e @ a) @ '' '' @ [CHR 0x0A])"
proof -
  have h: "filepath_Abs \<lparr>cwd = None, files = [[''work'', ''x.golden''] \<mapsto> ''Jane''], dirs = {[''work'']}\<rparr>
              (Absolute [''work'', ''x.golden'']) = Inr [''work'', ''x.golden'']"
    "toBytes \<lparr>UUIDAgnostic = False, DateTimeAgnostic = False, MarshalInputAsJSON = False\<rparr>
        \<lparr>dyn = String ''John'', marshalIndent = None\<rparr> = Inr ''John''"
    "(if False then updateGolden [''work'', ''x.golden''] ''John''
          \<lparr>UUIDAgnostic = False, DateTimeAgnostic = False, MarshalInputAsJSON = False\<rparr>
          \<lparr>cwd = None, files = [[''work'', ''x.golden''] \<mapsto> ''Jane''], dirs = {[''work'']}\<rparr>
      else (None, \<lparr>cwd = None, files = [[''work'', ''x.golden''] \<mapsto> ''Jane''], dirs = {[''work'']}\<rparr>))
       = (None, \<lparr>cwd = None, files = [[''work'', ''x.golden''] \<mapsto> ''Jane''], dirs = {[''work'']}\<rparr>)"
    "ReadFile \<lparr>cwd = None, files = [[''work'', ''x.golden''] \<mapsto> ''Jane''], dirs = {[''work'']}\<rparr>
        [''work'', ''x.golden''] = Inr ''Jane''"
    by (simp_all add: filepath_Abs_def toBytes_def ReadFile_def)
  from compare_fails_iff_texts_differ[OF h, of "\<lambda>p. concat p" "\<lambda>x y. x @ y"]
  show ?thesis .
qed

section \<open>Replacing every match by a constant\<close>

lemma ends_minlen: "t \<in> set (ends r s) \<Longrightarrow> length t + minlen r \<le> length s"
proof (induction r s arbitrary: t rule: ends.induct)
  case (1 cs s)
  then show ?case by (auto split: list.splits if_splits)
next
  case (2 w s)
  then have w: "take (length w) s = w" "t = drop (length w) s" by (auto split: if_splits)
  from w(1) have "length (take (length w) s) = length w" by (rule arg_cong)
  then have "length w \<le> length s" by simp
  with w(2) show ?case by simp
next
  case (3 a b s)
  then obtain t' where "t' \<in> set (ends a s)" "t \<in> set (ends b t')" by auto
  with 3 show ?case by fastforce
next
  case (4 a b s)
  then show ?case by fastforce
next
  case (5 a s)
  then show ?case by fastforce
next
  case (6 a s)
  from "6.prems" obtain t' where t': "t' \<in> set (ends a s)"
    "t \<in> set ((if length t' < length s then ends (Plus a) t' else []) @ [t'])"
    by (auto simp: ends.simps(6)[of a s])
  from "6.IH"(1)[OF t'(1)] have a: "length t' + minlen a \<le> length s" .
  show ?case
  proof (cases "t = t'")
    case True
    with a show ?thesis by simp
  next
    case False
    with t'(2) have l: "length t' < length s" and "t \<in> set (ends (Plus a) t')"
      by (auto split: if_splits)
    from "6.IH"(2)[OF t'(1) l this(2)] l show ?thesis by simp
  qed
next
  case (7 a s)
  then show ?case by simp
next
  case (8 n a s)
  then obtain t' where t': "t' \<in> set (ends a s)" "t \<in> set (ends (Rep n a) t')" by auto
  from "8.IH"(1)[OF t'(1)] "8.IH"(2)[OF t'] show ?case by simp
qed

lemma matchLen_minlen: "matchLen r s = Some k \<Longrightarrow> minlen r \<le> k"
proof -
  assume "matchLen r s = Some k"
  then obtain t ts where e: "ends r s = t # ts" "k = length s - length t"
    by (auto simp: matchLen_def split: list.splits)
  then have "t \<in> set (ends r s)" by simp
  from ends_minlen[OF this] e(2) show ?thesis by simp
qed

lemma matchLen_not_empty: "0 < minlen r \<Longrightarrow> matchLen r s \<noteq> Some 0"
  using matchLen_minlen[of r s 0] by auto

lemma uuidRe_no_empty: "matchLen uuidRe s \<noteq> Some 0"
  by (rule matchLen_not_empty) (simp add: uuidRe_def)

lemma rfc3339_minlen: "0 < minlen rfc3339Pattern"
  by (simp add: rfc3339Pattern_def yearRe_def)

lemma rfc7232_minlen: "0 < minlen lastModifiedPattern"
  by (simp add: lastModifiedPattern_def dayNameRe_def)

lemma rfc3339_no_empty: "matchLen rfc3339Pattern s \<noteq> Some 0"
  by (rule matchLen_not_empty) (rule rfc3339_minlen)

lemma rfc7232_no_empty: "matchLen lastModifiedPattern s \<noteq> Some 0"
  by (rule matchLen_not_empty) (rule rfc7232_minlen)

lemma substitute_skip:
  "\<forall>p \<in> set xs. Suc pos \<le> fst p \<Longrightarrow>
     substitute pos xs (c # t) repl = c # substitute (Suc pos) xs t repl"
proof (cases xs)
  case Nil
  then show ?thesis by simp
next
  case (Cons p ps)
  assume "\<forall>p \<in> set xs. Suc pos \<le> fst p"
  with Cons have "Suc pos \<le> fst p" by simp
  then have "fst p - pos = Suc (fst p - Suc pos)" by simp
  with Cons show ?thesis by (cases p) simp
qed

lemma replaceAllString_substitute:
  "replaceAllString r s repl = substitute pos (findAllStringIndex r pos s) s repl"
proof (induction r pos s rule: findAllStringIndex.induct)
  case (1 r pos)
  show ?case by simp
next
  case (2 r pos c t)
  have skip: "replaceAllString r (c # t) repl
      = substitute pos (findAllStringIndex r (Suc pos) t) (c # t) repl"
    if "replaceAllString r (c # t) repl = c # replaceAllString r t repl"
      and "replaceAllString r t repl = substitute (Suc pos) (findAllStringIndex r (Suc pos) t) t repl"
  proof -
    have "\<forall>p \<in> set (findAllStringIndex r (Suc pos) t). Suc pos \<le> fst p"
      using findAllStringIndex_ge by fastforce
    from substitute_skip[OF this] that show ?thesis by simp
  qed
  show ?case
  proof (cases "matchLen r (c # t)")
    case None
    with 2 skip show ?thesis by simp
  next
    case (Some j)
    show ?thesis
    proof (cases j)
      case 0
      with 2 Some skip show ?thesis by simp
    next
      case (Suc n)
      from Some Suc have n: "n \<le> length t" using matchLen_le[of r "c # t" "Suc n"] by simp
      from "2.IH" Some Suc
      have "replaceAllString r (drop n t) repl
          = substitute (pos + Suc n) (findAllStringIndex r (pos + Suc n) (drop n t)) (drop n t) repl"
        by blast
      with Some Suc n show ?thesis by simp
    qed
  qed
qed

lemma gaps_no_match:
  "0 < minlen r \<Longrightarrow> k < length s \<Longrightarrow>
     \<forall>p \<in> set (findAllStringIndex r pos s). \<not> (fst p \<le> pos + k \<and> pos + k < fst p + length (snd p))
     \<Longrightarrow> matchLen r (drop k s) = None"
proof (induction r pos s arbitrary: k rule: findAllStringIndex.induct)
  case (1 r pos)
  then show ?case by simp
next
  case (2 r pos c t)
  note pos = "2.prems"(1)
  have ne: "matchLen r (c # t) \<noteq> Some 0" using matchLen_not_empty[OF pos] by simp
  show ?case
  proof (cases "matchLen r (c # t)")
    case None
    show ?thesis
    proof (cases k)
      case 0
      with None show ?thesis by simp
    next
      case (Suc k')
      from "2.prems" None Suc
      have "k' < length t" "\<forall>p \<in> set (findAllStringIndex r (Suc pos) t).
          \<not> (fst p \<le> Suc pos + k' \<and> Suc pos + k' < fst p + length (snd p))"
        by simp_all
      with "2.IH"(1)[OF None pos] Suc show ?thesis by simp
    qed
  next
    case (Some j)
    with ne obtain n where Suc: "j = Suc n" by (cases j) auto
    from Some Suc have n: "n \<le> length t" using matchLen_le[of r "c # t" "Suc n"] by simp
    from "2.prems"(3) Some Suc have "\<not> (pos \<le> pos + k \<and> pos + k < pos + Suc n)"
      using n by simp
    then obtain k' where k': "k = Suc n + k'" by (metis add.commute le_add1 less_imp_add_positive
          linorder_not_less nat_add_left_cancel_less ordered_cancel_comm_monoid_diff_class.add_diff_inverse)
    from "2.prems" Some Suc k' n
    have "k' < length (drop n t)" "\<forall>p \<in> set (findAllStringIndex r (pos + Suc n) (drop n t)).
          \<not> (fst p \<le> pos + Suc n + k' \<and> pos + Suc n + k' < fst p + length (snd p))"
      by (simp_all add: add.assoc)
    moreover have "\<And>k. k < length (drop n t) \<Longrightarrow>
        \<forall>p \<in> set (findAllStringIndex r (pos + Suc n) (drop n t)).
          \<not> (fst p \<le> pos + Suc n + k \<and> pos + Suc n + k < fst p + length (snd p)) \<Longrightarrow>
        matchLen r (drop k (drop n t)) = None"
      using "2.IH" Some Suc pos by blast
    ultimately have "matchLen r (drop k' (drop n t)) = None" by blast
    then show ?thesis using k' by (simp add: add.commute)
  qed
qed

lemma scanOf_findAll:
  assumes "0 < minlen r"
  shows "scanOf r s (findAllStringIndex r 0 s)"
  unfolding scanOf_def
proof (intro conjI ballI allI impI)
  show "sorted_wrt (\<lambda>a b. fst a + length (snd a) \<le> fst b) (findAllStringIndex r 0 s)"
    by (rule findAllStringIndex_apart)
next
  fix p
  assume "p \<in> set (findAllStringIndex r 0 s)"
  then have "(fst p, snd p) \<in> set (findAllStringIndex r 0 s)" by simp
  from findAllStringIndex_sound[OF this]
  have a: "fst p + length (snd p) \<le> length s \<and> snd p = take (length (snd p)) (drop (fst p) s)
      \<and> matchLen r (drop (fst p) s) = Some (length (snd p)) \<and> snd p \<noteq> []"
    by simp
  from a show "snd p \<noteq> []" by blast
  from a show "fst p + length (snd p) \<le> length s" by blast
  from a show "snd p = take (length (snd p)) (drop (fst p) s)" by blast
  from a show "matchLen r (drop (fst p) s) = Some (length (snd p))" by blast
next
  fix k
  assume "k < length s"
    "\<forall>p \<in> set (findAllStringIndex r 0 s). \<not> (fst p \<le> k \<and> k < fst p + length (snd p))"
  then show "matchLen r (drop k s) = None"
    using gaps_no_match[OF assms, of k s 0] by simp
qed


section \<open>Time normalisation\<close>

lemma rfc3339_scan_example:
  "findAllStringIndex rfc3339Pattern 0
      ''at 2017-04-21T04:38:26.777609Z, Thu, 15 Mar 2018 09:23:37 GMT''
     = [(3, ''2017-04-21T04:38:26.777609Z'')]"
  by code_simp

lemma replaceTimes_example:
  "replaceTimes ''at 2017-04-21T04:38:26.777609Z, Thu, 15 Mar 2018 09:23:37 GMT''
     = Inr ''at 0001-01-01T00:00:00Z, Mon, 01 Jan 0001 00:00:00 GMT''"
  by code_simp

text \<open>
  Claim C2. \<open>replaceTimes\<close> is two passes: the first replaces, in the input, every match of
  the RFC3339 pattern by the one literal \<open>0001-01-01T00:00:00Z\<close>; the second replaces, in
  the result of the first, every match of the last-modified pattern by the one literal
  \<open>Mon, 01 Jan 0001 00:00:00 GMT\<close>. The matches of a pass are the successive
  non-overlapping leftmost-first matches of its pattern, no character outside them starts
  a match, and what a match is replaced with does not depend on what it holds.
\<close>

theorem replaceTimes_two_passes:
  "\<exists>res. res = substitute 0 (findAllStringIndex rfc3339Pattern 0 s) s rfc3339Default
     \<and> replaceTimes s
         = Inr (substitute 0 (findAllStringIndex lastModifiedPattern 0 res) res rfc7232Default)
     \<and> scanOf rfc3339Pattern s (findAllStringIndex rfc3339Pattern 0 s)
     \<and> scanOf lastModifiedPattern res (findAllStringIndex lastModifiedPattern 0 res)
     \<and> rfc3339Default = ''0001-01-01T00:00:00Z''
     \<and> rfc7232Default = ''Mon, 01 Jan 0001 00:00:00 GMT''"
proof -
  let ?res = "substitute 0 (findAllStringIndex rfc3339Pattern 0 s) s rfc3339Default"
  have a: "replaceAllString rfc3339Pattern s rfc3339Default = ?res"
    by (rule replaceAllString_substitute)
  have b: "replaceAllString lastModifiedPattern ?res rfc7232Default
      = substitute 0 (findAllStringIndex lastModifiedPattern 0 ?res) ?res rfc7232Default"
    by (rule replaceAllString_substitute)
  have "replaceTimes s
      = Inr (substitute 0 (findAllStringIndex lastModifiedPattern 0 ?res) ?res rfc7232Default)"
    unfolding replaceTimes_def Let_def a b ..
  moreover have "scanOf rfc3339Pattern s (findAllStringIndex rfc3339Pattern 0 s)"
    by (rule scanOf_findAll[OF rfc3339_minlen])
  moreover have "scanOf lastModifiedPattern ?res (findAllStringIndex lastModifiedPattern 0 ?res)"
    by (rule scanOf_findAll[OF rfc7232_minlen])
  ultimately show ?thesis by (simp add: rfc3339Default_def rfc7232Default_def)
qed

theorem replaceTimes_two_passes_witness:
  "replaceTimes ''at 2017-04-21T04:38:26.777609Z, Thu, 15 Mar 2018 09:23:37 GMT''
     = Inr ''at 0001-01-01T00:00:00Z, Mon, 01 Jan 0001 00:00:00 GMT''
   \<and> matchLen rfc3339Pattern
        (drop 3 ''at 2017-04-21T04:38:26.777609Z, Thu, 15 Mar 2018 09:23:37 GMT'')
     = Some (length ''2017-04-21T04:38:26.777609Z'')
   \<and> matchLen rfc3339Pattern
        (drop 2 ''at 2017-04-21T04:38:26.777609Z, Thu, 15 Mar 2018 09:23:37 GMT'') = None"
proof -
  let ?s = "''at 2017-04-21T04:38:26.777609Z, Thu, 15 Mar 2018 09:23:37 GMT''"
  from replaceTimes_two_passes[of ?s]
  have sc: "scanOf rfc3339Pattern ?s (findAllStringIndex rfc3339Pattern 0 ?s)" by blast
  then have sc': "scanOf rfc3339Pattern ?s [(3, ''2017-04-21T04:38:26.777609Z'')]"
    unfolding rfc3339_scan_example .
  from sc' have "\<forall>p \<in> set [(3::nat, ''2017-04-21T04:38:26.777609Z'')].
      matchLen rfc3339Pattern (drop (fst p) ?s) = Some (length (snd p))"
    unfolding scanOf_def by blast
  then have m: "matchLen rfc3339Pattern (drop 3 ?s) = Some (length ''2017-04-21T04:38:26.777609Z'')"
    by simp
  from sc' have "\<forall>k < length ?s.
      (\<forall>p \<in> set [(3::nat, ''2017-04-21T04:38:26.777609Z'')]. \<not> (fst p \<le> k \<and> k < fst p + length (snd p)))
         \<longrightarrow> matchLen rfc3339Pattern (drop k ?s) = None"
    unfolding scanOf_def by blast
  then have "2 < length ?s \<longrightarrow>
      (\<forall>p \<in> set [(3::nat, ''2017-04-21T04:38:26.777609Z'')]. \<not> (fst p \<le> 2 \<and> 2 < fst p + length (snd p)))
         \<longrightarrow> matchLen rfc3339Pattern (drop 2 ?s) = None"
    by blast
  then have g: "matchLen rfc3339Pattern (drop 2 ?s) = None" by simp
  from replaceTimes_example m g show ?thesis by blast
qed




section \<open>The RFC3339 pattern on a timestamp\<close>





























end
